theory Spec2Isabelle
  imports Main "HOL-Library.FSet" "HOL-Library.Word"
begin

section \<open>Data model of the contact resolver\<close>

text \<open>
  The embedding follows \<^verbatim>\<open>src/contactresolver.cpp\<close>. A \<^verbatim>\<open>QString\<close> is a
  \<open>string\<close>, a \<^verbatim>\<open>QList\<close> is a list, the \<^verbatim>\<open>QSet\<close> of \<^verbatim>\<open>UidPair\<close> is a finite set and
  the \<^verbatim>\<open>int\<close> counter is a 32-bit word read as a signed number with \<open>sint\<close>. C++ leaves
  the overflow of a signed increment undefined; the compiled increment wraps from
  \<open>2147483647\<close> to \<open>-2147483648\<close>, and so does the model. \<^verbatim>\<open>QSet::size()\<close> is the number
  of elements of the set.
\<close>

type_synonym uidPair = "string \<times> string"

text \<open>\<^verbatim>\<open>Event::Contact\<close> is a pair of a contact id and a display label.\<close>

type_synonym eventContact = "int \<times> string"

text \<open>The fields of \<^verbatim>\<open>Event\<close> that the resolver reads or writes.\<close>

record event =
  localUid :: string
  remoteUid :: string
  contacts :: "eventContact list"

definition setContacts :: "eventContact list \<Rightarrow> event \<Rightarrow> event" where
  "setContacts cs e = e\<lparr>contacts := cs\<rparr>"

subsection \<open>Collaborators that are not part of the source file\<close>

text \<open>
  \<^verbatim>\<open>QString::toCaseFolded\<close>, and \<^verbatim>\<open>minimizePhoneNumber\<close> and
  \<^verbatim>\<open>localUidComparesPhoneNumbers\<close> of \<^verbatim>\<open>commonutils.h\<close>, are used by the resolver
  but defined elsewhere. They are parameters of the model.
\<close>

record commonUtils =
  toCaseFolded :: "string \<Rightarrow> string"
  minimizePhoneNumber :: "string \<Rightarrow> string"
  localUidComparesPhoneNumbers :: "string \<Rightarrow> bool"

text \<open>
  A \<^verbatim>\<open>SeasideCache::CacheItem\<close> carries the contact id \<^verbatim>\<open>iid\<close> and the contact
  record \<^verbatim>\<open>contact\<close>, of an opaque type \<open>'c\<close>. The content of the cache at the moment
  of a call is a parameter: three lookups, a null pointer being \<open>None\<close>, and
  \<^verbatim>\<open>generateDisplayLabel\<close> with the configured \<^verbatim>\<open>displayLabelOrder()\<close>.
\<close>

record 'c cacheItem =
  iid :: int
  contact :: 'c

record 'c seasideCache =
  itemByPhoneNumber :: "string \<Rightarrow> 'c cacheItem option"
  itemByEmailAddress :: "string \<Rightarrow> 'c cacheItem option"
  itemByOnlineAccount :: "string \<Rightarrow> string \<Rightarrow> 'c cacheItem option"
  generateDisplayLabel :: "'c \<Rightarrow> string"

subsection \<open>State and observable effects\<close>

text \<open>
  The members of \<^verbatim>\<open>ContactResolverPrivate\<close>. The \<^verbatim>\<open>resolveTimer\<close> only feeds a
  debug message and is left out.
\<close>

record contactResolverPrivate =
  events :: "event list"
  requestedAddresses :: "uidPair fset"
  resolvedAddresses :: "32 word"

text \<open>
  What the resolver does to the outside: the three resolution requests to the cache and
  the two signals. Every operation returns the effects it caused, in order, and the new
  state.
\<close>

datatype effect =
  ResolvePhoneNumber string
  | ResolveEmailAddress string
  | ResolveOnlineAccount string string
  | EventsResolved "event list"
  | Finished

fun isRequest :: "effect \<Rightarrow> bool" where
  "isRequest (ResolvePhoneNumber _) = True"
| "isRequest (ResolveEmailAddress _) = True"
| "isRequest (ResolveOnlineAccount _ _) = True"
| "isRequest _ = False"

fun isEmailRequest :: "effect \<Rightarrow> bool" where
  "isEmailRequest (ResolveEmailAddress _) = True"
| "isEmailRequest _ = False"

definition requestsOf :: "effect list \<Rightarrow> effect list" where
  "requestsOf fx = filter isRequest fx"

text \<open>An operation delivers when it emits a signal.\<close>

definition delivers :: "effect list \<Rightarrow> bool" where
  "delivers fx = (filter (\<lambda>x. \<not> isRequest x) fx \<noteq> [])"

text \<open>The constructor: no events, no requested address, counter at zero.\<close>

definition initial :: contactResolverPrivate where
  "initial = \<lparr>events = [], requestedAddresses = {||}, resolvedAddresses = 0\<rparr>"

section \<open>The operations\<close>

subsection \<open>Address folding\<close>

definition foldedAddress :: "commonUtils \<Rightarrow> string \<Rightarrow> string \<Rightarrow> uidPair" where
  "foldedAddress u local remoteU =
     (if local = [] then
        (let remote = minimizePhoneNumber u remoteU;
             remote = (if remote = [] then remoteU else remote)
         in ([], toCaseFolded u remote))
      else (toCaseFolded u local, toCaseFolded u remoteU))"

definition foldedEventAddress :: "commonUtils \<Rightarrow> string \<Rightarrow> string \<Rightarrow> uidPair" where
  "foldedEventAddress u local remoteU =
     (if localUidComparesPhoneNumbers u local then foldedAddress u [] remoteU
      else (toCaseFolded u local, toCaseFolded u remoteU))"

definition foldedEventAddressOf :: "commonUtils \<Rightarrow> event \<Rightarrow> uidPair" where
  "foldedEventAddressOf u e = foldedEventAddress u (localUid e) (remoteUid e)"

subsection \<open>Requesting resolution\<close>

definition resolveEvent ::
  "commonUtils \<Rightarrow> event \<Rightarrow> contactResolverPrivate \<Rightarrow> effect list \<times> contactResolverPrivate"
where
  "resolveEvent u e s =
     (if localUid e = [] \<or> remoteUid e = [] then ([], s)
      else
        (let uidPair = foldedEventAddressOf u e in
         if uidPair |\<in>| requestedAddresses s then ([], s)
         else
           (let s' = s\<lparr>requestedAddresses := finsert uidPair (requestedAddresses s)\<rparr> in
            if fst uidPair = [] then ([ResolvePhoneNumber (snd uidPair)], s')
            else if snd uidPair = [] then ([ResolveEmailAddress (fst uidPair)], s')
            else ([ResolveOnlineAccount (fst uidPair) (snd uidPair)], s'))))"

subsection \<open>Applying the contacts found\<close>

definition bestMatch :: "commonUtils \<Rightarrow> 'c seasideCache \<Rightarrow> event \<Rightarrow> 'c cacheItem option" where
  "bestMatch u c e =
     (if localUidComparesPhoneNumbers u (localUid e) then itemByPhoneNumber c (remoteUid e)
      else if remoteUid e = [] then itemByEmailAddress c (localUid e)
      else itemByOnlineAccount c (localUid e) (remoteUid e))"

text \<open>The loop over the copy \<^verbatim>\<open>resolved\<close> of the event list, one iteration per element.\<close>

fun applyResolvedContactsTo ::
  "commonUtils \<Rightarrow> 'c seasideCache \<Rightarrow> event list \<Rightarrow> event list"
where
  "applyResolvedContactsTo u c [] = []"
| "applyResolvedContactsTo u c (e # rest) =
     (case bestMatch u c e of
        Some item \<Rightarrow>
          (let label = generateDisplayLabel c (contact item)
           in setContacts [(iid item, label)] e)
      | None \<Rightarrow> setContacts [] e)
     # applyResolvedContactsTo u c rest"

definition applyResolvedContacts ::
  "commonUtils \<Rightarrow> 'c seasideCache \<Rightarrow> contactResolverPrivate \<Rightarrow> event list"
where
  "applyResolvedContacts u c s = applyResolvedContactsTo u c (events s)"

subsection \<open>Completion check and callback\<close>

definition checkIfResolved ::
  "commonUtils \<Rightarrow> 'c seasideCache \<Rightarrow> contactResolverPrivate
     \<Rightarrow> effect list \<times> contactResolverPrivate"
where
  "checkIfResolved u c s =
     (if events s = [] then ([], s)
      else if sint (resolvedAddresses s) < int (fcard (requestedAddresses s)) then ([], s)
      else
        (let resolved = applyResolvedContacts u c s
         in ([EventsResolved resolved, Finished], s\<lparr>events := []\<rparr>)))"

text \<open>The increment is that of the 32-bit counter: at \<open>2147483647\<close> it wraps.\<close>

definition addressResolved ::
  "commonUtils \<Rightarrow> 'c seasideCache \<Rightarrow> contactResolverPrivate
     \<Rightarrow> effect list \<times> contactResolverPrivate"
where
  "addressResolved u c s =
     checkIfResolved u c (s\<lparr>resolvedAddresses := resolvedAddresses s + 1\<rparr>)"

subsection \<open>Adding events\<close>

text \<open>The two \<^verbatim>\<open>foreach\<close> loops, without the completion check that follows them.\<close>

fun appendLoop ::
  "commonUtils \<Rightarrow> event list \<Rightarrow> contactResolverPrivate \<Rightarrow> effect list \<times> contactResolverPrivate"
where
  "appendLoop u [] s = ([], s)"
| "appendLoop u (e # rest) s =
     (let (fx1, s1) = resolveEvent u e s;
          s2 = s1\<lparr>events := events s1 @ [e]\<rparr>;
          (fx2, s3) = appendLoop u rest s2
      in (fx1 @ fx2, s3))"

fun prependLoop ::
  "commonUtils \<Rightarrow> event list \<Rightarrow> contactResolverPrivate \<Rightarrow> effect list \<times> contactResolverPrivate"
where
  "prependLoop u [] s = ([], s)"
| "prependLoop u (e # rest) s =
     (let (fx1, s1) = resolveEvent u e s;
          s2 = s1\<lparr>events := e # events s1\<rparr>;
          (fx2, s3) = prependLoop u rest s2
      in (fx1 @ fx2, s3))"

definition appendEvents ::
  "commonUtils \<Rightarrow> 'c seasideCache \<Rightarrow> event list \<Rightarrow> contactResolverPrivate
     \<Rightarrow> effect list \<times> contactResolverPrivate"
where
  "appendEvents u c es s =
     (let (fx1, s1) = appendLoop u es s;
          (fx2, s2) = checkIfResolved u c s1
      in (fx1 @ fx2, s2))"

definition prependEvents ::
  "commonUtils \<Rightarrow> 'c seasideCache \<Rightarrow> event list \<Rightarrow> contactResolverPrivate
     \<Rightarrow> effect list \<times> contactResolverPrivate"
where
  "prependEvents u c es s =
     (let (fx1, s1) = prependLoop u es s;
          (fx2, s2) = checkIfResolved u c s1
      in (fx1 @ fx2, s2))"

subsection \<open>The accessors\<close>

text \<open>
  \<^verbatim>\<open>ContactResolver::events() const\<close> returns the annotated copy; being \<^verbatim>\<open>const\<close>,
  it hands the state back as it was.
\<close>

definition eventsSnapshot ::
  "commonUtils \<Rightarrow> 'c seasideCache \<Rightarrow> contactResolverPrivate
     \<Rightarrow> event list \<times> contactResolverPrivate"
where
  "eventsSnapshot u c s = (applyResolvedContacts u c s, s)"

definition isResolving :: "contactResolverPrivate \<Rightarrow> bool" where
  "isResolving s = (events s \<noteq> [])"

subsection \<open>Sequences of calls\<close>

text \<open>
  A call from outside: one of the two public slots, or the cache's callback. Each call
  comes with the content of the cache at that moment, since the cache changes over time.
\<close>

datatype call = AppendEvents "event list" | PrependEvents "event list" | AddressResolved

fun perform ::
  "commonUtils \<Rightarrow> 'c seasideCache \<Rightarrow> call \<Rightarrow> contactResolverPrivate
     \<Rightarrow> effect list \<times> contactResolverPrivate"
where
  "perform u c (AppendEvents es) s = appendEvents u c es s"
| "perform u c (PrependEvents es) s = prependEvents u c es s"
| "perform u c AddressResolved s = addressResolved u c s"

fun run ::
  "commonUtils \<Rightarrow> ('c seasideCache \<times> call) list \<Rightarrow> contactResolverPrivate
     \<Rightarrow> effect list \<times> contactResolverPrivate"
where
  "run u [] s = ([], s)"
| "run u ((c, k) # rest) s =
     (let (fx1, s1) = perform u c k s;
          (fx2, s2) = run u rest s1
      in (fx1 @ fx2, s2))"

section \<open>Notions used to state the properties\<close>

text \<open>
  An event is skipped by \<^verbatim>\<open>resolveEvent\<close> when one of its raw addresses is empty. The
  request keys of a list of events are the folded addresses of those that are not skipped.
\<close>

definition skipped :: "event \<Rightarrow> bool" where
  "skipped e = (localUid e = [] \<or> remoteUid e = [])"

definition requestKeys :: "commonUtils \<Rightarrow> event list \<Rightarrow> uidPair list" where
  "requestKeys u es = map (foldedEventAddressOf u) (filter (\<lambda>e. \<not> skipped e) es)"

text \<open>The request that \<^verbatim>\<open>resolveEvent\<close> sends for a key: the three-way choice at its end.\<close>

definition requestFor :: "uidPair \<Rightarrow> effect" where
  "requestFor uidPair =
     (if fst uidPair = [] then ResolvePhoneNumber (snd uidPair)
      else if snd uidPair = [] then ResolveEmailAddress (fst uidPair)
      else ResolveOnlineAccount (fst uidPair) (snd uidPair))"

text \<open>
  The keys that a batch adds to a set \<open>R\<close> of keys requested before, in the order in
  which the loop meets them.
\<close>

fun freshKeys :: "commonUtils \<Rightarrow> event list \<Rightarrow> uidPair fset \<Rightarrow> uidPair list" where
  "freshKeys u [] R = []"
| "freshKeys u (e # rest) R =
     (if skipped e \<or> foldedEventAddressOf u e |\<in>| R then freshKeys u rest R
      else foldedEventAddressOf u e # freshKeys u rest (finsert (foldedEventAddressOf u e) R))"

text \<open>All events handed to the resolver by a sequence of calls.\<close>

fun callEvents :: "call \<Rightarrow> event list" where
  "callEvents (AppendEvents es) = es"
| "callEvents (PrependEvents es) = es"
| "callEvents AddressResolved = []"

definition submittedEvents :: "('c seasideCache \<times> call) list \<Rightarrow> event list" where
  "submittedEvents calls = concat (map (\<lambda>ck. callEvents (snd ck)) calls)"

text \<open>
  The comment at the head of the source assumes one \<^verbatim>\<open>addressResolved\<close> callback for
  each request made. \<open>runAnswered\<close> runs a sequence of calls while counting the requests
  that are still unanswered, and gives \<open>None\<close> when a callback arrives that answers no
  request. Otherwise it returns the number of unanswered requests and the final state.
\<close>

fun runAnswered ::
  "commonUtils \<Rightarrow> ('c seasideCache \<times> call) list \<Rightarrow> nat \<Rightarrow> contactResolverPrivate
     \<Rightarrow> (nat \<times> contactResolverPrivate) option"
where
  "runAnswered u [] p s = Some (p, s)"
| "runAnswered u ((c, AddressResolved) # rest) p s =
     (if p = 0 then None
      else runAnswered u rest (p - 1) (snd (perform u c AddressResolved s)))"
| "runAnswered u ((c, k) # rest) p s =
     (let (fx, s1) = perform u c k s
      in runAnswered u rest (p + length (requestsOf fx)) s1)"

text \<open>The number of callbacks in a sequence of calls.\<close>

definition callbacksIn :: "('c seasideCache \<times> call) list \<Rightarrow> nat" where
  "callbacksIn calls = length (filter (\<lambda>ck. snd ck = AddressResolved) calls)"

text \<open>
  The event list as a call leaves it for the completion check that ends the call: the
  batch appended, or prepended one event at a time, or the list as it was for a callback.
\<close>

fun heldWith :: "call \<Rightarrow> event list \<Rightarrow> event list" where
  "heldWith (AppendEvents es) held = held @ es"
| "heldWith (PrependEvents es) held = rev es @ held"
| "heldWith AddressResolved held = held"

section \<open>Sample collaborators and inputs\<close>

text \<open>
  Concrete collaborators at which the model is evaluated: a case folding that lowers the
  ASCII letters, a phone-number minimisation that drops the separators and keeps the
  digits, the plus sign and the dial-string letters, and a phone-comparison test that
  recognises the empty local address and the account paths starting with \<open>ring\<close>.
  The sample cache knows one phone contact and one account contact.
\<close>

definition asciiFold :: "char \<Rightarrow> char" where
  "asciiFold ch =
     (case map_of (zip ''ABCDEFGHIJKLMNOPQRSTUVWXYZ'' ''abcdefghijklmnopqrstuvwxyz'') ch of
        Some l \<Rightarrow> l | None \<Rightarrow> ch)"

definition sampleUtils :: commonUtils where
  "sampleUtils =
     \<lparr>toCaseFolded = map asciiFold,
      minimizePhoneNumber = filter (\<lambda>ch. ch \<notin> set '' -.()''),
      localUidComparesPhoneNumbers = (\<lambda>l. l = [] \<or> take 4 l = ''ring'')\<rparr>"

definition sampleCache :: "string seasideCache" where
  "sampleCache =
     \<lparr>itemByPhoneNumber =
        (\<lambda>r. if r = ''+1-555-0100'' then Some \<lparr>iid = 7, contact = ''Alice''\<rparr> else None),
      itemByEmailAddress = (\<lambda>l. None),
      itemByOnlineAccount =
        (\<lambda>l r. if l = ''acct1'' \<and> r = ''acct1-contact''
               then Some \<lparr>iid = 9, contact = ''Bob''\<rparr> else None),
      generateDisplayLabel = (\<lambda>n. n)\<rparr>"

definition phoneEvent :: event where
  "phoneEvent = \<lparr>localUid = ''ring/tel/ril_0'', remoteUid = ''+1-555-0100'', contacts = []\<rparr>"

definition accountEvent :: event where
  "accountEvent = \<lparr>localUid = ''acct1'', remoteUid = ''acct1-contact'', contacts = []\<rparr>"

definition strangerEvent :: event where
  "strangerEvent =
     \<lparr>localUid = ''acct1'', remoteUid = ''nobody'', contacts = [(3, ''Stale'')]\<rparr>"

text \<open>A resolver that holds three events and has had one of its three requests answered.\<close>

definition heldState :: contactResolverPrivate where
  "heldState =
     \<lparr>events = [phoneEvent, accountEvent, strangerEvent],
      requestedAddresses =
        {|([], ''+15550100''), (''acct1'', ''acct1-contact''), (''acct1'', ''nobody'')|},
      resolvedAddresses = 1\<rparr>"

text \<open>Four account events with different remote addresses, and two events that are skipped.\<close>

definition eventA :: event where
  "eventA = \<lparr>localUid = ''acct1'', remoteUid = ''a'', contacts = []\<rparr>"

definition eventB :: event where
  "eventB = \<lparr>localUid = ''acct1'', remoteUid = ''b'', contacts = []\<rparr>"

definition eventC :: event where
  "eventC = \<lparr>localUid = ''acct1'', remoteUid = ''c'', contacts = []\<rparr>"

definition eventD :: event where
  "eventD = \<lparr>localUid = ''acct1'', remoteUid = ''d'', contacts = []\<rparr>"

definition noRemoteEvent :: event where
  "noRemoteEvent = \<lparr>localUid = ''acct1'', remoteUid = [], contacts = []\<rparr>"

definition noLocalEvent :: event where
  "noLocalEvent = \<lparr>localUid = [], remoteUid = ''+1-555-0100'', contacts = []\<rparr>"

section \<open>The contact-application pass\<close>

lemma applyResolvedContactsTo_length:
  "length (applyResolvedContactsTo u c es) = length es"
  by (induction es) simp_all

lemma applyResolvedContactsTo_nth:
  "i < length es \<Longrightarrow>
     applyResolvedContactsTo u c es ! i =
       (case bestMatch u c (es ! i) of
          Some item \<Rightarrow> setContacts [(iid item, generateDisplayLabel c (contact item))] (es ! i)
        | None \<Rightarrow> setContacts [] (es ! i))"
proof (induction es arbitrary: i)
  case Nil
  then show ?case by simp
next
  case (Cons e es)
  then show ?case by (cases i) (simp_all split: option.split)
qed

lemma bestMatch_setContacts: "bestMatch u c (setContacts cs e) = bestMatch u c e"
  by (simp add: bestMatch_def setContacts_def)

lemma setContacts_twice: "setContacts cs (setContacts ds e) = setContacts cs e"
  by (simp add: setContacts_def)

lemma applyResolvedContactsTo_idem:
  "applyResolvedContactsTo u c (applyResolvedContactsTo u c es) = applyResolvedContactsTo u c es"
proof (induction es)
  case Nil
  show ?case by simp
next
  case (Cons e es)
  show ?case
  proof (cases "bestMatch u c e")
    case None
    with Cons show ?thesis by (simp add: bestMatch_setContacts setContacts_twice)
  next
    case (Some item)
    with Cons show ?thesis by (simp add: bestMatch_setContacts setContacts_twice)
  qed
qed

text \<open>
  Claim C7. The contact-application pass returns one event for every held event, in the
  same positions and with the addresses unchanged. The contact list of each is decided by
  a lookup with the raw addresses of that event: by phone number with the raw remote
  address when the local address compares phone numbers, else by email address with the
  raw local address when the remote address is empty, else by the raw account pair. A
  match sets the contact list to the single entry (contact id, display label); no match
  sets it to the empty list.
\<close>

theorem applyResolvedContacts_raw_lookup:
  "length (applyResolvedContacts u c s) = length (events s) \<and>
   (\<forall>i < length (events s).
      localUid (applyResolvedContacts u c s ! i) = localUid (events s ! i) \<and>
      remoteUid (applyResolvedContacts u c s ! i) = remoteUid (events s ! i) \<and>
      contacts (applyResolvedContacts u c s ! i) =
        (case (if localUidComparesPhoneNumbers u (localUid (events s ! i))
                 then itemByPhoneNumber c (remoteUid (events s ! i))
               else if remoteUid (events s ! i) = []
                 then itemByEmailAddress c (localUid (events s ! i))
               else itemByOnlineAccount c (localUid (events s ! i)) (remoteUid (events s ! i)))
         of Some item \<Rightarrow> [(iid item, generateDisplayLabel c (contact item))]
          | None \<Rightarrow> []))"
  by (simp add: applyResolvedContacts_def applyResolvedContactsTo_length
      applyResolvedContactsTo_nth bestMatch_def setContacts_def split: option.split)

theorem applyResolvedContacts_raw_lookup_witness:
  "(1::nat) < length (events heldState) \<and>
   contacts (applyResolvedContacts sampleUtils sampleCache heldState ! 1) = [(9, ''Bob'')]"
  using applyResolvedContacts_raw_lookup [of sampleUtils sampleCache heldState]
  by (simp add: heldState_def phoneEvent_def accountEvent_def strangerEvent_def
      sampleUtils_def sampleCache_def)

section \<open>Address folding\<close>

text \<open>
  Claim C8, amended. Address folding is a function of the two addresses alone. When the
  local address compares phone numbers the key is the empty string paired with the case
  folding of the minimised remote address, or of the raw remote address when the
  minimisation is empty: the minimised number is case-folded too. Otherwise the key is
  the pair of the case-folded addresses. The key has the unfolded minimised number as its
  second component exactly when case folding leaves that number unchanged. Equal inputs
  give equal keys.
\<close>

theorem foldedEventAddress_shape:
  "foldedEventAddress u l r =
     (if localUidComparesPhoneNumbers u l
      then ([], toCaseFolded u
                  (if minimizePhoneNumber u r = [] then r else minimizePhoneNumber u r))
      else (toCaseFolded u l, toCaseFolded u r)) \<and>
   (localUidComparesPhoneNumbers u l \<and> minimizePhoneNumber u r \<noteq> [] \<longrightarrow>
      (foldedEventAddress u l r = ([], minimizePhoneNumber u r)) =
        (toCaseFolded u (minimizePhoneNumber u r) = minimizePhoneNumber u r)) \<and>
   (l = l' \<and> r = r' \<longrightarrow> foldedEventAddress u l r = foldedEventAddress u l' r')"
  by (simp add: foldedEventAddress_def foldedAddress_def Let_def)

theorem foldedEventAddress_shape_witness:
  "localUidComparesPhoneNumbers sampleUtils ''ring/tel/ril_0'' \<and>
   minimizePhoneNumber sampleUtils ''+1-555-0100'' \<noteq> [] \<and>
   foldedEventAddress sampleUtils ''ring/tel/ril_0'' ''+1-555-0100'' = ([], ''+15550100'') \<and>
   foldedEventAddress sampleUtils ''ring/tel/ril_0'' ''()'' = ([], ''()'') \<and>
   foldedEventAddress sampleUtils ''Acct1'' ''Acct1-Contact'' = (''acct1'', ''acct1-contact'')"
  using
    foldedEventAddress_shape [of sampleUtils "''ring/tel/ril_0''" "''+1-555-0100''"
      "''ring/tel/ril_0''" "''+1-555-0100''"]
    foldedEventAddress_shape [of sampleUtils "''ring/tel/ril_0''" "''()''"]
    foldedEventAddress_shape [of sampleUtils "''Acct1''" "''Acct1-Contact''"]
  by (simp add: sampleUtils_def asciiFold_def)

text \<open>
  The claim as stated takes the minimised number itself as the second component. With a
  minimisation that keeps a dial-string letter, the letter is folded in the key.
\<close>

theorem foldedEventAddress_minimized_unfolded_counterexample:
  "localUidComparesPhoneNumbers sampleUtils ''ring/tel/ril_0'' \<and>
   minimizePhoneNumber sampleUtils ''555-0100 X12'' = ''5550100X12'' \<and>
   foldedEventAddress sampleUtils ''ring/tel/ril_0'' ''555-0100 X12'' = ([], ''5550100x12'') \<and>
   foldedEventAddress sampleUtils ''ring/tel/ril_0'' ''555-0100 X12''
     \<noteq> ([], minimizePhoneNumber sampleUtils ''555-0100 X12'')"
  by (simp add: foldedEventAddress_def foldedAddress_def sampleUtils_def asciiFold_def)

section \<open>The snapshot\<close>

text \<open>
  Claim C9. The snapshot \<^verbatim>\<open>events()\<close> leaves the state as it was, so the resolver is
  resolving afterwards exactly if it was before, also while requests are outstanding. A
  second snapshot taken right after the first returns the same list, and applying the
  pass to a snapshot changes nothing. The snapshot has one event per held event, and an
  event whose lookup finds no contact carries the empty contact list.
\<close>

theorem eventsSnapshot_nondestructive:
  "snd (eventsSnapshot u c s) = s \<and>
   isResolving (snd (eventsSnapshot u c s)) = isResolving s \<and>
   fst (eventsSnapshot u c (snd (eventsSnapshot u c s))) = fst (eventsSnapshot u c s) \<and>
   applyResolvedContactsTo u c (fst (eventsSnapshot u c s)) = fst (eventsSnapshot u c s) \<and>
   length (fst (eventsSnapshot u c s)) = length (events s) \<and>
   (\<forall>i < length (events s).
      bestMatch u c (events s ! i) = None \<longrightarrow> contacts (fst (eventsSnapshot u c s) ! i) = [])"
  by (simp add: eventsSnapshot_def applyResolvedContacts_def applyResolvedContactsTo_idem
      applyResolvedContactsTo_length applyResolvedContactsTo_nth setContacts_def)

theorem eventsSnapshot_nondestructive_witness:
  "(2::nat) < length (events heldState) \<and>
   bestMatch sampleUtils sampleCache (events heldState ! 2) = None \<and>
   isResolving heldState \<and>
   sint (resolvedAddresses heldState) < int (fcard (requestedAddresses heldState)) \<and>
   snd (eventsSnapshot sampleUtils sampleCache heldState) = heldState \<and>
   contacts (fst (eventsSnapshot sampleUtils sampleCache heldState) ! 2) = []"
  using eventsSnapshot_nondestructive [of sampleUtils sampleCache heldState]
  by (simp add: heldState_def phoneEvent_def accountEvent_def strangerEvent_def
      sampleUtils_def sampleCache_def bestMatch_def isResolving_def fcard_finsert_if)

section \<open>What the loops do\<close>

lemma resolveEvent_eq:
  "resolveEvent u e s =
     (if skipped e \<or> foldedEventAddressOf u e |\<in>| requestedAddresses s then ([], s)
      else ([requestFor (foldedEventAddressOf u e)],
            s\<lparr>requestedAddresses := finsert (foldedEventAddressOf u e) (requestedAddresses s)\<rparr>))"
  by (simp add: resolveEvent_def skipped_def requestFor_def Let_def)

lemma appendLoop_eq:
  "appendLoop u es s =
     (map requestFor (freshKeys u es (requestedAddresses s)),
      s\<lparr>events := events s @ es,
        requestedAddresses :=
          requestedAddresses s |\<union>| fset_of_list (freshKeys u es (requestedAddresses s))\<rparr>)"
proof (induction es arbitrary: s)
  case Nil
  show ?case by simp
next
  case (Cons e es)
  show ?case by (simp add: Cons.IH resolveEvent_eq)
qed

lemma prependLoop_eq:
  "prependLoop u es s =
     (map requestFor (freshKeys u es (requestedAddresses s)),
      s\<lparr>events := rev es @ events s,
        requestedAddresses :=
          requestedAddresses s |\<union>| fset_of_list (freshKeys u es (requestedAddresses s))\<rparr>)"
proof (induction es arbitrary: s)
  case Nil
  show ?case by simp
next
  case (Cons e es)
  show ?case by (simp add: Cons.IH resolveEvent_eq)
qed

lemma freshKeys_set:
  "set (freshKeys u es R) = set (requestKeys u es) - fset R"
  by (induction es arbitrary: R) (auto simp: requestKeys_def)

lemma freshKeys_distinct: "distinct (freshKeys u es R)"
  by (induction es arbitrary: R) (auto simp: freshKeys_set)

lemma freshKeys_append:
  "freshKeys u (xs @ ys) R =
     freshKeys u xs R @ freshKeys u ys (R |\<union>| fset_of_list (freshKeys u xs R))"
  by (induction xs arbitrary: R) simp_all

lemma freshKeys_none:
  "\<forall>e \<in> set es. skipped e \<or> foldedEventAddressOf u e |\<in>| R \<Longrightarrow> freshKeys u es R = []"
  by (induction es) simp_all

lemma freshKeys_origin:
  "k \<in> set (freshKeys u es R) \<Longrightarrow> \<exists>e \<in> set es. \<not> skipped e \<and> k = foldedEventAddressOf u e"
  by (auto simp: freshKeys_set requestKeys_def)

lemma inj_requestFor: "inj requestFor"
  by (auto simp: inj_on_def requestFor_def prod_eq_iff split: if_splits)

lemma requestsOf_append [simp]: "requestsOf (xs @ ys) = requestsOf xs @ requestsOf ys"
  by (simp add: requestsOf_def)

lemma requestsOf_Nil [simp]: "requestsOf [] = []"
  by (simp add: requestsOf_def)

lemma isRequest_requestFor [simp]: "isRequest (requestFor k)"
  by (simp add: requestFor_def)

lemma requestsOf_requests [simp]: "requestsOf (map requestFor ks) = map requestFor ks"
  by (induction ks) (simp_all add: requestsOf_def)

lemma signalsOf_requests: "filter (\<lambda>x. \<not> isRequest x) (map requestFor ks) = []"
  by (induction ks) simp_all

lemma isEmailRequest_isRequest: "isEmailRequest x \<Longrightarrow> isRequest x"
  by (cases x) simp_all

subsection \<open>The completion check\<close>

lemma checkIfResolved_requests [simp]: "requestsOf (fst (checkIfResolved u c s)) = []"
  by (simp add: checkIfResolved_def requestsOf_def Let_def)

lemma checkIfResolved_requested [simp]:
  "requestedAddresses (snd (checkIfResolved u c s)) = requestedAddresses s"
  by (simp add: checkIfResolved_def Let_def)

lemma checkIfResolved_resolved [simp]:
  "resolvedAddresses (snd (checkIfResolved u c s)) = resolvedAddresses s"
  by (simp add: checkIfResolved_def Let_def)

lemma checkIfResolved_signals:
  "events s \<noteq> [] \<Longrightarrow> events (snd (checkIfResolved u c s)) = [] \<Longrightarrow>
     fst (checkIfResolved u c s) =
       [EventsResolved (applyResolvedContactsTo u c (events s)), Finished]"
  by (simp add: checkIfResolved_def applyResolvedContacts_def Let_def split: if_splits)

lemma checkIfResolved_kept:
  "events (snd (checkIfResolved u c s)) \<noteq> [] \<Longrightarrow>
     events (snd (checkIfResolved u c s)) = events s"
  by (simp add: checkIfResolved_def Let_def split: if_splits)

lemma run_callbacks_idle:
  "events s = [] \<Longrightarrow>
     run u (map (\<lambda>c. (c, AddressResolved)) cs) s =
       ([], s\<lparr>resolvedAddresses := resolvedAddresses s + of_nat (length cs)\<rparr>)"
proof (induction cs arbitrary: s)
  case Nil
  show ?case by simp
next
  case (Cons c cs)
  have a: "addressResolved u c s = ([], s\<lparr>resolvedAddresses := resolvedAddresses s + 1\<rparr>)"
    using Cons.prems by (simp add: addressResolved_def checkIfResolved_def)
  have "events (s\<lparr>resolvedAddresses := resolvedAddresses s + 1\<rparr>) = []"
    using Cons.prems by simp
  from Cons.IH [OF this] show ?case by (simp add: a)
qed

subsection \<open>The public calls\<close>

lemma appendEvents_eq:
  "appendEvents u c es s =
     (map requestFor (freshKeys u es (requestedAddresses s))
        @ fst (checkIfResolved u c (snd (appendLoop u es s))),
      snd (checkIfResolved u c (snd (appendLoop u es s))))"
  by (simp add: appendEvents_def appendLoop_eq split_beta)

lemma prependEvents_eq:
  "prependEvents u c es s =
     (map requestFor (freshKeys u es (requestedAddresses s))
        @ fst (checkIfResolved u c (snd (prependLoop u es s))),
      snd (checkIfResolved u c (snd (prependLoop u es s))))"
  by (simp add: prependEvents_def prependLoop_eq split_beta)

lemma appendEvents_kept:
  "isResolving (snd (appendEvents u c es s)) \<Longrightarrow>
     events (snd (appendEvents u c es s)) = events s @ es"
  using checkIfResolved_kept [of u c "snd (appendLoop u es s)"]
  by (simp add: appendEvents_eq isResolving_def appendLoop_eq)

lemma prependEvents_kept:
  "isResolving (snd (prependEvents u c es s)) \<Longrightarrow>
     events (snd (prependEvents u c es s)) = rev es @ events s"
  using checkIfResolved_kept [of u c "snd (prependLoop u es s)"]
  by (simp add: prependEvents_eq isResolving_def prependLoop_eq)

lemma appendEvents_delivered:
  "events s @ es \<noteq> [] \<Longrightarrow> \<not> isResolving (snd (appendEvents u c es s)) \<Longrightarrow>
     filter (\<lambda>x. \<not> isRequest x) (fst (appendEvents u c es s)) =
       [EventsResolved (applyResolvedContactsTo u c (events s @ es)), Finished]"
  using checkIfResolved_signals [of "snd (appendLoop u es s)" u c]
  by (simp add: appendEvents_eq isResolving_def appendLoop_eq signalsOf_requests)

lemma prependEvents_delivered:
  "rev es @ events s \<noteq> [] \<Longrightarrow> \<not> isResolving (snd (prependEvents u c es s)) \<Longrightarrow>
     filter (\<lambda>x. \<not> isRequest x) (fst (prependEvents u c es s)) =
       [EventsResolved (applyResolvedContactsTo u c (rev es @ events s)), Finished]"
  using checkIfResolved_signals [of "snd (prependLoop u es s)" u c]
  by (simp add: prependEvents_eq isResolving_def prependLoop_eq signalsOf_requests)

lemma perform_requests:
  "requestsOf (fst (perform u c k s)) =
     map requestFor (freshKeys u (callEvents k) (requestedAddresses s))"
  by (cases k) (simp_all add: appendEvents_eq prependEvents_eq addressResolved_def)

lemma appendEvents_requests:
  "requestsOf (fst (appendEvents u c es s)) =
     map requestFor (freshKeys u es (requestedAddresses s))"
  using perform_requests [of u c "AppendEvents es" s] by simp

lemma perform_requested:
  "requestedAddresses (snd (perform u c k s)) =
     requestedAddresses s |\<union>| fset_of_list (freshKeys u (callEvents k) (requestedAddresses s))"
  by (cases k)
    (simp_all add: appendEvents_eq prependEvents_eq addressResolved_def appendLoop_eq
      prependLoop_eq)

lemma perform_resolved:
  "resolvedAddresses (snd (perform u c k s)) =
     resolvedAddresses s + (if k = AddressResolved then 1 else 0)"
  by (cases k)
    (simp_all add: appendEvents_eq prependEvents_eq addressResolved_def appendLoop_eq
      prependLoop_eq)

subsection \<open>Sequences of calls\<close>

lemma run_requests_requested:
  "requestsOf (fst (run u calls s)) =
     map requestFor (freshKeys u (submittedEvents calls) (requestedAddresses s)) \<and>
   requestedAddresses (snd (run u calls s)) =
     requestedAddresses s
       |\<union>| fset_of_list (freshKeys u (submittedEvents calls) (requestedAddresses s))"
proof (induction calls arbitrary: s)
  case Nil
  show ?case by (simp add: submittedEvents_def)
next
  case (Cons ck calls)
  obtain c k where ck: "ck = (c, k)" by (cases ck)
  have sub: "submittedEvents ((c, k) # calls) = callEvents k @ submittedEvents calls"
    by (simp add: submittedEvents_def)
  show ?case
    by (simp add: ck sub split_beta perform_requests perform_requested freshKeys_append
        Cons.IH [of "snd (perform u c k s)"] funion_assoc)
qed

lemma run_requests_bij:
  "distinct (requestsOf (fst (run u calls s))) \<and>
   bij_betw requestFor
     (set (requestKeys u (submittedEvents calls)) - fset (requestedAddresses s))
     (set (requestsOf (fst (run u calls s))))"
proof -
  let ?ks = "freshKeys u (submittedEvents calls) (requestedAddresses s)"
  have r: "requestsOf (fst (run u calls s)) = map requestFor ?ks"
    by (simp add: run_requests_requested)
  have inj: "inj_on requestFor A" for A
    using inj_requestFor by (rule inj_on_subset) simp
  have d: "distinct (requestsOf (fst (run u calls s)))"
    by (simp add: r distinct_map freshKeys_distinct inj)
  have b: "bij_betw requestFor
     (set (requestKeys u (submittedEvents calls)) - fset (requestedAddresses s))
     (set (requestsOf (fst (run u calls s))))"
    by (simp add: bij_betw_def inj r freshKeys_set)
  from d b show ?thesis ..
qed

section \<open>Counting callbacks and requests\<close>

lemma sint_of_nat_small: "n < 2147483648 \<Longrightarrow> sint (of_nat n :: 32 word) = int n"
  by (simp add: signed_of_nat signed_take_bit_int_eq_self)

lemma sint_of_nat_le: "sint (of_nat n :: 32 word) \<le> int n"
  by (simp add: signed_of_nat signed_take_bit_int_less_eq_self_iff)

lemma run_append:
  "run u (xs @ ys) s =
     (fst (run u xs s) @ fst (run u ys (snd (run u xs s))), snd (run u ys (snd (run u xs s))))"
proof (induction xs arbitrary: s)
  case Nil
  show ?case by simp
next
  case (Cons ck xs)
  obtain c k where ck: "ck = (c, k)" by (cases ck)
  show ?case by (simp add: ck split_beta Cons.IH)
qed

lemma run_single: "run u [(c, k)] s = perform u c k s"
  by (simp add: split_beta)

lemma run_resolved:
  "resolvedAddresses (snd (run u calls s)) = resolvedAddresses s + of_nat (callbacksIn calls)"
proof (induction calls arbitrary: s)
  case Nil
  show ?case by (simp add: callbacksIn_def)
next
  case (Cons ck calls)
  obtain c k where ck: "ck = (c, k)" by (cases ck)
  have "callbacksIn ((c, k) # calls) = (if k = AddressResolved then 1 else 0) + callbacksIn calls"
    by (simp add: callbacksIn_def)
  then show ?case
    by (simp add: ck split_beta Cons.IH perform_resolved del: perform.simps)
qed

lemma fcard_funion_fresh:
  "distinct ks \<Longrightarrow> set ks \<inter> fset R = {} \<Longrightarrow>
     fcard (R |\<union>| fset_of_list ks) = fcard R + length ks"
proof (induction ks arbitrary: R)
  case Nil
  show ?case by simp
next
  case (Cons k ks)
  have "fcard (R |\<union>| fset_of_list (k # ks)) = fcard (finsert k R |\<union>| fset_of_list ks)"
    by simp
  also have "\<dots> = fcard (finsert k R) + length ks"
    using Cons.prems by (intro Cons.IH) auto
  also have "\<dots> = fcard R + length (k # ks)"
    using Cons.prems by (simp add: fcard_finsert_if)
  finally show ?case .
qed

lemma freshKeys_fcard:
  "fcard (R |\<union>| fset_of_list (freshKeys u es R)) = fcard R + length (freshKeys u es R)"
  by (rule fcard_funion_fresh) (auto simp: freshKeys_distinct freshKeys_set)

lemma perform_fcard:
  "fcard (requestedAddresses (snd (perform u c k s))) =
     fcard (requestedAddresses s) + length (requestsOf (fst (perform u c k s)))"
  by (simp add: perform_requests perform_requested freshKeys_fcard)

lemma run_fcard:
  "fcard (requestedAddresses (snd (run u calls s))) =
     fcard (requestedAddresses s) + length (requestsOf (fst (run u calls s)))"
  by (simp add: run_requests_requested freshKeys_fcard)

lemma perform_check:
  "perform u c k s =
     (requestsOf (fst (perform u c k s))
        @ fst (checkIfResolved u c
                 (s\<lparr>events := heldWith k (events s),
                    requestedAddresses := requestedAddresses (snd (perform u c k s)),
                    resolvedAddresses := resolvedAddresses (snd (perform u c k s))\<rparr>)),
      snd (checkIfResolved u c
             (s\<lparr>events := heldWith k (events s),
                requestedAddresses := requestedAddresses (snd (perform u c k s)),
                resolvedAddresses := resolvedAddresses (snd (perform u c k s))\<rparr>)))"
proof (cases k)
  case (AppendEvents es)
  show ?thesis
    by (simp add: AppendEvents appendEvents_eq appendLoop_eq)
next
  case (PrependEvents es)
  show ?thesis
    by (simp add: PrependEvents prependEvents_eq prependLoop_eq)
next
  case AddressResolved
  show ?thesis
    by (simp add: AddressResolved addressResolved_def)
qed

lemma perform_delivers:
  "delivers (fst (perform u c k s)) \<longleftrightarrow>
     heldWith k (events s) \<noteq> [] \<and>
     int (fcard (requestedAddresses (snd (perform u c k s))))
       \<le> sint (resolvedAddresses (snd (perform u c k s)))"
proof -
  let ?t = "s\<lparr>events := heldWith k (events s),
              requestedAddresses := requestedAddresses (snd (perform u c k s)),
              resolvedAddresses := resolvedAddresses (snd (perform u c k s))\<rparr>"
  have "delivers (fst (perform u c k s)) \<longleftrightarrow> delivers (fst (checkIfResolved u c ?t))"
    by (subst perform_check) (simp add: delivers_def requestsOf_def)
  also have "\<dots> \<longleftrightarrow> events ?t \<noteq> [] \<and>
      int (fcard (requestedAddresses ?t)) \<le> sint (resolvedAddresses ?t)"
    by (auto simp: checkIfResolved_def delivers_def Let_def)
  finally show ?thesis by simp
qed

lemma perform_delivered:
  assumes "delivers (fst (perform u c k s))"
  shows "filter (\<lambda>x. \<not> isRequest x) (fst (perform u c k s)) =
           [EventsResolved (applyResolvedContactsTo u c (heldWith k (events s))), Finished]"
    and "events (snd (perform u c k s)) = []"
proof -
  let ?t = "s\<lparr>events := heldWith k (events s),
              requestedAddresses := requestedAddresses (snd (perform u c k s)),
              resolvedAddresses := resolvedAddresses (snd (perform u c k s))\<rparr>"
  from assms have d: "heldWith k (events s) \<noteq> [] \<and>
     int (fcard (requestedAddresses (snd (perform u c k s))))
       \<le> sint (resolvedAddresses (snd (perform u c k s)))"
    using perform_delivers [of u c k s] by blast
  then have c: "checkIfResolved u c ?t =
      ([EventsResolved (applyResolvedContactsTo u c (heldWith k (events s))), Finished],
       ?t\<lparr>events := []\<rparr>)"
    by (simp add: checkIfResolved_def applyResolvedContacts_def Let_def)
  show "filter (\<lambda>x. \<not> isRequest x) (fst (perform u c k s)) =
           [EventsResolved (applyResolvedContactsTo u c (heldWith k (events s))), Finished]"
    by (subst perform_check) (simp add: c requestsOf_def)
  show "events (snd (perform u c k s)) = []"
    by (subst perform_check) (simp add: c)
qed

lemma perform_not_delivered:
  assumes "\<not> delivers (fst (perform u c k s))"
  shows "filter (\<lambda>x. \<not> isRequest x) (fst (perform u c k s)) = []"
    and "events (snd (perform u c k s)) = heldWith k (events s)"
proof -
  let ?t = "s\<lparr>events := heldWith k (events s),
              requestedAddresses := requestedAddresses (snd (perform u c k s)),
              resolvedAddresses := resolvedAddresses (snd (perform u c k s))\<rparr>"
  from assms have d: "\<not> (heldWith k (events s) \<noteq> [] \<and>
     int (fcard (requestedAddresses (snd (perform u c k s))))
       \<le> sint (resolvedAddresses (snd (perform u c k s))))"
    using perform_delivers [of u c k s] by blast
  then have c: "checkIfResolved u c ?t = ([], ?t)"
    by (auto simp: checkIfResolved_def)
  show "filter (\<lambda>x. \<not> isRequest x) (fst (perform u c k s)) = []"
    by (subst perform_check) (simp add: c requestsOf_def)
  show "events (snd (perform u c k s)) = heldWith k (events s)"
    by (subst perform_check) (simp add: c)
qed

lemma history_counts:
  "resolvedAddresses (snd (run u calls initial)) = of_nat (callbacksIn calls) \<and>
   fcard (requestedAddresses (snd (run u calls initial)))
     = length (requestsOf (fst (run u calls initial)))"
  using run_resolved [of u calls initial] run_fcard [of u calls initial]
  by (simp add: initial_def)

lemma run_callbacks_new:
  "run u (replicate n (c, AddressResolved)) initial
     = ([], initial\<lparr>resolvedAddresses := of_nat n\<rparr>)"
proof -
  have "run u (map (\<lambda>c. (c, AddressResolved)) (replicate n c)) initial
     = ([], initial\<lparr>resolvedAddresses :=
               resolvedAddresses initial + of_nat (length (replicate n c))\<rparr>)"
    by (rule run_callbacks_idle) (simp add: initial_def)
  then show ?thesis by (simp add: initial_def)
qed

section \<open>Completion and delivery\<close>

text \<open>
  Claim C1, amended. An append, a prepend or a callback delivers exactly when the event
  list it leaves for its completion check is not empty and the counter of callbacks is
  not below the number of requested keys. On a resolver that has received fewer than
  \<open>2147483648\<close> callbacks since it was made, this is: exactly when that list is not empty
  and the number of callbacks received is at least the number of requests sent; the two
  numbers need not be equal. A call that finds the list empty or the counter below
  delivers nothing and keeps the list. A delivery is the signal \<^verbatim>\<open>eventsResolved\<close> with the
  annotated list followed by \<^verbatim>\<open>finished\<close>, and it empties the event list in the same
  step; any number of further callbacks after it emit nothing and leave the list empty.
\<close>

theorem delivery_exactly_when:
  "(delivers (fst (perform u c k s)) \<longleftrightarrow>
      heldWith k (events s) \<noteq> [] \<and>
      int (fcard (requestedAddresses (snd (perform u c k s))))
        \<le> sint (resolvedAddresses (snd (perform u c k s)))) \<and>
   (callbacksIn (calls @ [(c, k)]) < 2147483648 \<longrightarrow>
      (delivers (fst (perform u c k (snd (run u calls initial)))) \<longleftrightarrow>
         heldWith k (events (snd (run u calls initial))) \<noteq> [] \<and>
         length (requestsOf (fst (run u (calls @ [(c, k)]) initial)))
           \<le> callbacksIn (calls @ [(c, k)]))) \<and>
   (delivers (fst (perform u c k s)) \<longrightarrow>
      filter (\<lambda>x. \<not> isRequest x) (fst (perform u c k s)) =
        [EventsResolved (applyResolvedContactsTo u c (heldWith k (events s))), Finished] \<and>
      events (snd (perform u c k s)) = [] \<and>
      fst (run u (map (\<lambda>c'. (c', AddressResolved)) cs) (snd (perform u c k s))) = [] \<and>
      events (snd (run u (map (\<lambda>c'. (c', AddressResolved)) cs) (snd (perform u c k s)))) = []) \<and>
   (\<not> delivers (fst (perform u c k s)) \<longrightarrow>
      filter (\<lambda>x. \<not> isRequest x) (fst (perform u c k s)) = [] \<and>
      events (snd (perform u c k s)) = heldWith k (events s))"
proof -
  let ?h = "snd (run u calls initial)"
  let ?all = "calls @ [(c, k)]"
  have last: "snd (run u ?all initial) = snd (perform u c k ?h)"
    by (simp add: run_append split_beta)
  have hist: "delivers (fst (perform u c k ?h)) \<longleftrightarrow>
         heldWith k (events ?h) \<noteq> [] \<and>
         length (requestsOf (fst (run u ?all initial))) \<le> callbacksIn ?all"
    if b: "callbacksIn ?all < 2147483648"
  proof -
    have r: "sint (resolvedAddresses (snd (perform u c k ?h))) = int (callbacksIn ?all)"
      using history_counts [of u ?all] sint_of_nat_small [OF b] by (simp only: last)
    have n: "fcard (requestedAddresses (snd (perform u c k ?h)))
               = length (requestsOf (fst (run u ?all initial)))"
      using history_counts [of u ?all] by (simp only: last)
    show ?thesis
      unfolding perform_delivers r n by simp
  qed
  have after: "fst (run u (map (\<lambda>c'. (c', AddressResolved)) cs) (snd (perform u c k s))) = [] \<and>
      events (snd (run u (map (\<lambda>c'. (c', AddressResolved)) cs) (snd (perform u c k s)))) = []"
    if "delivers (fst (perform u c k s))"
    using run_callbacks_idle [OF perform_delivered(2) [OF that], of u cs]
      perform_delivered(2) [OF that] by simp
  show ?thesis
    using perform_delivers [of u c k s] hist perform_delivered [of u c k s] after
      perform_not_delivered [of u c k s]
    by blast
qed

theorem delivery_exactly_when_witness:
  "callbacksIn ([(sampleCache, AppendEvents [accountEvent])] @ [(sampleCache, AddressResolved)])
     < 2147483648 \<and>
   delivers (fst (perform sampleUtils sampleCache AddressResolved
     (snd (run sampleUtils [(sampleCache, AppendEvents [accountEvent])] initial)))) \<and>
   length (requestsOf (fst (run sampleUtils
       ([(sampleCache, AppendEvents [accountEvent])] @ [(sampleCache, AddressResolved)]) initial)))
     \<le> callbacksIn
          ([(sampleCache, AppendEvents [accountEvent])] @ [(sampleCache, AddressResolved)]) \<and>
   events (snd (perform sampleUtils sampleCache AddressResolved
     (snd (run sampleUtils [(sampleCache, AppendEvents [accountEvent])] initial)))) = [] \<and>
   \<not> delivers (fst (perform sampleUtils sampleCache (AppendEvents [accountEvent]) initial)) \<and>
   events (snd (perform sampleUtils sampleCache (AppendEvents [accountEvent]) initial))
     = heldWith (AppendEvents [accountEvent]) (events initial)"
proof -
  have "callbacksIn
      ([(sampleCache, AppendEvents [accountEvent])] @ [(sampleCache, AddressResolved)]) = 1"
    by code_simp
  then have b: "callbacksIn
      ([(sampleCache, AppendEvents [accountEvent])] @ [(sampleCache, AddressResolved)])
     < 2147483648"
    by simp
  have d: "delivers (fst (perform sampleUtils sampleCache AddressResolved
     (snd (run sampleUtils [(sampleCache, AppendEvents [accountEvent])] initial))))"
    by code_simp
  have n: "\<not> delivers (fst (perform sampleUtils sampleCache (AppendEvents [accountEvent]) initial))"
    by code_simp
  from delivery_exactly_when [of sampleUtils sampleCache AddressResolved
      "snd (run sampleUtils [(sampleCache, AppendEvents [accountEvent])] initial)"
      "[(sampleCache, AppendEvents [accountEvent])]" "[]"]
    delivery_exactly_when [of sampleUtils sampleCache "AppendEvents [accountEvent]" initial
      "[]" "[]"] b d n
  show ?thesis by blast
qed

text \<open>
  The claim as stated ties delivery to the two numbers being equal. On a new resolver that
  receives two callbacks and then one account event, the append sends its one request and
  delivers at once, with two callbacks counted against one requested key. The bound on
  the callbacks is needed: after \<open>2147483648\<close> callbacks the counter has wrapped to a
  negative number, and the append of an event that needs no request delivers nothing.
\<close>

theorem delivery_with_count_ahead_counterexample:
  "fst (run sampleUtils
      [(sampleCache, AddressResolved), (sampleCache, AddressResolved),
       (sampleCache, AppendEvents [accountEvent])] initial)
     = [ResolveOnlineAccount ''acct1'' ''acct1-contact'',
        EventsResolved [accountEvent\<lparr>contacts := [(9, ''Bob'')]\<rparr>], Finished] \<and>
   callbacksIn
      [(sampleCache, AddressResolved), (sampleCache, AddressResolved),
       (sampleCache, AppendEvents [accountEvent])] = 2 \<and>
   resolvedAddresses (snd (run sampleUtils
      [(sampleCache, AddressResolved), (sampleCache, AddressResolved),
       (sampleCache, AppendEvents [accountEvent])] initial)) = 2 \<and>
   fcard (requestedAddresses (snd (run sampleUtils
      [(sampleCache, AddressResolved), (sampleCache, AddressResolved),
       (sampleCache, AppendEvents [accountEvent])] initial))) = 1 \<and>
   run sampleUtils
      (replicate 2147483648 (sampleCache, AddressResolved)
         @ [(sampleCache, AppendEvents [noRemoteEvent])]) initial
     = ([], \<lparr>events = [noRemoteEvent], requestedAddresses = {||},
              resolvedAddresses = 2147483648\<rparr>) \<and>
   sint (2147483648 :: 32 word) = - 2147483648"
proof -
  have a: "fst (run sampleUtils
      [(sampleCache, AddressResolved), (sampleCache, AddressResolved),
       (sampleCache, AppendEvents [accountEvent])] initial)
     = [ResolveOnlineAccount ''acct1'' ''acct1-contact'',
        EventsResolved [accountEvent\<lparr>contacts := [(9, ''Bob'')]\<rparr>], Finished] \<and>
   callbacksIn
      [(sampleCache, AddressResolved), (sampleCache, AddressResolved),
       (sampleCache, AppendEvents [accountEvent])] = 2 \<and>
   resolvedAddresses (snd (run sampleUtils
      [(sampleCache, AddressResolved), (sampleCache, AddressResolved),
       (sampleCache, AppendEvents [accountEvent])] initial)) = 2 \<and>
   fcard (requestedAddresses (snd (run sampleUtils
      [(sampleCache, AddressResolved), (sampleCache, AddressResolved),
       (sampleCache, AppendEvents [accountEvent])] initial))) = 1"
    by code_simp
  have w: "appendEvents sampleUtils sampleCache [noRemoteEvent]
             (initial\<lparr>resolvedAddresses := 2147483648\<rparr>)
     = ([], \<lparr>events = [noRemoteEvent], requestedAddresses = {||},
              resolvedAddresses = 2147483648\<rparr>)"
    by code_simp
  have b: "run sampleUtils
      (replicate 2147483648 (sampleCache, AddressResolved)
         @ [(sampleCache, AppendEvents [noRemoteEvent])]) initial
     = ([], \<lparr>events = [noRemoteEvent], requestedAddresses = {||},
              resolvedAddresses = 2147483648\<rparr>)"
    unfolding run_append run_callbacks_new run_single
    by (simp add: w)
  have s: "sint (2147483648 :: 32 word) = - 2147483648"
    by simp
  from a b s show ?thesis by blast
qed

section \<open>Order of the events\<close>

text \<open>
  Claim C2, amended. On an idle resolver, append a batch \<open>xs\<close> that leaves the resolver
  resolving. Appending a batch \<open>ys\<close> next makes the event order \<open>xs @ ys\<close>. Prepending
  \<open>ys\<close> instead makes it \<open>rev ys @ xs\<close>: every event of the batch is put at the front in
  turn, so the prepended batch comes out in reverse. This is the order of the held list
  when the resolver is still resolving after the second call, and the order of the
  delivered list when the second call delivers.
\<close>

theorem event_order_append_prepend:
  assumes "events s = []" and "isResolving (snd (appendEvents u c xs s))"
  shows
    "(isResolving (snd (appendEvents u c' ys (snd (appendEvents u c xs s)))) \<longrightarrow>
        events (snd (appendEvents u c' ys (snd (appendEvents u c xs s)))) = xs @ ys) \<and>
     (isResolving (snd (prependEvents u c' ys (snd (appendEvents u c xs s)))) \<longrightarrow>
        events (snd (prependEvents u c' ys (snd (appendEvents u c xs s)))) = rev ys @ xs) \<and>
     (\<not> isResolving (snd (appendEvents u c' ys (snd (appendEvents u c xs s)))) \<longrightarrow>
        filter (\<lambda>x. \<not> isRequest x) (fst (appendEvents u c' ys (snd (appendEvents u c xs s))))
          = [EventsResolved (applyResolvedContactsTo u c' (xs @ ys)), Finished]) \<and>
     (\<not> isResolving (snd (prependEvents u c' ys (snd (appendEvents u c xs s)))) \<longrightarrow>
        filter (\<lambda>x. \<not> isRequest x) (fst (prependEvents u c' ys (snd (appendEvents u c xs s))))
          = [EventsResolved (applyResolvedContactsTo u c' (rev ys @ xs)), Finished])"
proof -
  let ?s1 = "snd (appendEvents u c xs s)"
  have s1: "events ?s1 = xs"
    using appendEvents_kept [OF assms(2)] assms(1) by simp
  from assms(2) have ne: "xs \<noteq> []"
    unfolding isResolving_def s1 .
  show ?thesis
    using appendEvents_kept [of u c' ys ?s1] prependEvents_kept [of u c' ys ?s1]
      appendEvents_delivered [of ?s1 ys u c'] prependEvents_delivered [of ys ?s1 u c']
    by (simp add: s1 ne)
qed

theorem event_order_append_prepend_witness:
  "events initial = [] \<and>
   isResolving (snd (appendEvents sampleUtils sampleCache [eventA, eventB] initial)) \<and>
   events (snd (appendEvents sampleUtils sampleCache [eventC, eventD]
             (snd (appendEvents sampleUtils sampleCache [eventA, eventB] initial))))
     = [eventA, eventB, eventC, eventD] \<and>
   events (snd (prependEvents sampleUtils sampleCache [eventC, eventD]
             (snd (appendEvents sampleUtils sampleCache [eventA, eventB] initial))))
     = [eventD, eventC, eventA, eventB]"
proof -
  have i: "events initial = []"
    by code_simp
  have r: "isResolving (snd (appendEvents sampleUtils sampleCache [eventA, eventB] initial))"
    by code_simp
  have ra: "isResolving (snd (appendEvents sampleUtils sampleCache [eventC, eventD]
             (snd (appendEvents sampleUtils sampleCache [eventA, eventB] initial))))"
    by code_simp
  have rp: "isResolving (snd (prependEvents sampleUtils sampleCache [eventC, eventD]
             (snd (appendEvents sampleUtils sampleCache [eventA, eventB] initial))))"
    by code_simp
  from event_order_append_prepend [OF i r, of sampleCache "[eventC, eventD]"] i r ra rp
  show ?thesis by simp
qed

text \<open>
  The claim as stated puts the prepended batch in front in its own order. Prepending
  \<open>[C, D]\<close> after appending \<open>[A, B]\<close> gives \<open>[D, C, A, B]\<close>. And when the first batch
  has only skipped events, its append delivers at once, so that a second append starts
  from the empty list.
\<close>

theorem prependEvents_batch_order_counterexample:
  "events (snd (prependEvents sampleUtils sampleCache [eventC, eventD]
             (snd (appendEvents sampleUtils sampleCache [eventA, eventB] initial))))
     = [eventD, eventC, eventA, eventB] \<and>
   [eventD, eventC, eventA, eventB] \<noteq> [eventC, eventD, eventA, eventB] \<and>
   delivers (fst (appendEvents sampleUtils sampleCache [noRemoteEvent, noLocalEvent] initial)) \<and>
   events (snd (appendEvents sampleUtils sampleCache [eventC, eventD]
             (snd (appendEvents sampleUtils sampleCache [noRemoteEvent, noLocalEvent] initial))))
     = [eventC, eventD]"
  by code_simp

section \<open>Requests\<close>

text \<open>
  Claim C3, amended. Appending to a new resolver one event with the empty local address
  and the remote address \<open>+1-555-0100\<close>, and one event with the local address \<open>acct1\<close>
  and the remote address \<open>acct1-contact\<close>, sends exactly one request, for the second
  event: an event with an empty local or remote address sends none. For an event with
  both addresses and a key not requested before, the request is chosen by the shape of
  the folded key: by phone number when its first component is empty, by email address
  when its second component is empty, by account pair otherwise. When the first event
  has instead a non-empty local address that compares phone numbers, and \<open>acct1\<close> does
  not compare phone numbers and folds, like \<open>acct1-contact\<close>, to a non-empty string, the
  append sends exactly two requests: a phone-number request and an account-pair request.
\<close>

theorem resolveEvent_variant_selection:
  "requestsOf (fst (appendEvents u c
      [\<lparr>localUid = [], remoteUid = ''+1-555-0100'', contacts = cs\<rparr>,
       \<lparr>localUid = ''acct1'', remoteUid = ''acct1-contact'', contacts = cs'\<rparr>] initial))
     = [if fst (foldedEventAddress u ''acct1'' ''acct1-contact'') = []
          then ResolvePhoneNumber (snd (foldedEventAddress u ''acct1'' ''acct1-contact''))
        else if snd (foldedEventAddress u ''acct1'' ''acct1-contact'') = []
          then ResolveEmailAddress (fst (foldedEventAddress u ''acct1'' ''acct1-contact''))
        else ResolveOnlineAccount (fst (foldedEventAddress u ''acct1'' ''acct1-contact''))
               (snd (foldedEventAddress u ''acct1'' ''acct1-contact''))] \<and>
   (localUid e = [] \<or> remoteUid e = [] \<longrightarrow> resolveEvent u e s = ([], s)) \<and>
   (localUid e \<noteq> [] \<and> remoteUid e \<noteq> []
      \<and> foldedEventAddressOf u e |\<notin>| requestedAddresses s \<longrightarrow>
      fst (resolveEvent u e s) =
        [if fst (foldedEventAddressOf u e) = []
           then ResolvePhoneNumber (snd (foldedEventAddressOf u e))
         else if snd (foldedEventAddressOf u e) = []
           then ResolveEmailAddress (fst (foldedEventAddressOf u e))
         else ResolveOnlineAccount (fst (foldedEventAddressOf u e))
                (snd (foldedEventAddressOf u e))]) \<and>
   (l \<noteq> [] \<and> localUidComparesPhoneNumbers u l \<and> \<not> localUidComparesPhoneNumbers u ''acct1'' \<and>
    toCaseFolded u ''acct1'' \<noteq> [] \<and> toCaseFolded u ''acct1-contact'' \<noteq> [] \<longrightarrow>
      requestsOf (fst (appendEvents u c
        [\<lparr>localUid = l, remoteUid = ''+1-555-0100'', contacts = cs\<rparr>,
         \<lparr>localUid = ''acct1'', remoteUid = ''acct1-contact'', contacts = cs'\<rparr>] initial))
       = [ResolvePhoneNumber
            (toCaseFolded u (if minimizePhoneNumber u ''+1-555-0100'' = [] then ''+1-555-0100''
                             else minimizePhoneNumber u ''+1-555-0100'')),
          ResolveOnlineAccount (toCaseFolded u ''acct1'') (toCaseFolded u ''acct1-contact'')])"
proof -
  have a: "requestsOf (fst (appendEvents u c
      [\<lparr>localUid = [], remoteUid = ''+1-555-0100'', contacts = cs\<rparr>,
       \<lparr>localUid = ''acct1'', remoteUid = ''acct1-contact'', contacts = cs'\<rparr>] initial))
     = [requestFor (foldedEventAddress u ''acct1'' ''acct1-contact'')]"
    by (simp add: appendEvents_requests skipped_def initial_def foldedEventAddressOf_def)
  have b: "localUid e = [] \<or> remoteUid e = [] \<Longrightarrow> resolveEvent u e s = ([], s)"
    by (auto simp: resolveEvent_def)
  have d: "localUid e \<noteq> [] \<and> remoteUid e \<noteq> []
      \<and> foldedEventAddressOf u e |\<notin>| requestedAddresses s \<Longrightarrow>
      fst (resolveEvent u e s) = [requestFor (foldedEventAddressOf u e)]"
    by (simp add: resolveEvent_eq skipped_def)
  have g: "requestsOf (fst (appendEvents u c
        [\<lparr>localUid = l, remoteUid = ''+1-555-0100'', contacts = cs\<rparr>,
         \<lparr>localUid = ''acct1'', remoteUid = ''acct1-contact'', contacts = cs'\<rparr>] initial))
       = [ResolvePhoneNumber
            (toCaseFolded u (if minimizePhoneNumber u ''+1-555-0100'' = [] then ''+1-555-0100''
                             else minimizePhoneNumber u ''+1-555-0100'')),
          ResolveOnlineAccount (toCaseFolded u ''acct1'') (toCaseFolded u ''acct1-contact'')]"
    if "l \<noteq> [] \<and> localUidComparesPhoneNumbers u l \<and> \<not> localUidComparesPhoneNumbers u ''acct1'' \<and>
        toCaseFolded u ''acct1'' \<noteq> [] \<and> toCaseFolded u ''acct1-contact'' \<noteq> []"
    using that
    by (simp add: appendEvents_requests skipped_def initial_def foldedEventAddressOf_def
        foldedEventAddress_def foldedAddress_def requestFor_def Let_def)
  show ?thesis
    using a b d g unfolding requestFor_def by blast
qed

theorem resolveEvent_variant_selection_witness:
  "''ring/tel/ril_0'' \<noteq> [] \<and> localUidComparesPhoneNumbers sampleUtils ''ring/tel/ril_0'' \<and>
   \<not> localUidComparesPhoneNumbers sampleUtils ''acct1'' \<and>
   toCaseFolded sampleUtils ''acct1'' \<noteq> [] \<and> toCaseFolded sampleUtils ''acct1-contact'' \<noteq> [] \<and>
   requestsOf (fst (appendEvents sampleUtils sampleCache
        [\<lparr>localUid = ''ring/tel/ril_0'', remoteUid = ''+1-555-0100'', contacts = []\<rparr>,
         \<lparr>localUid = ''acct1'', remoteUid = ''acct1-contact'', contacts = []\<rparr>] initial))
     = [ResolvePhoneNumber ''+15550100'', ResolveOnlineAccount ''acct1'' ''acct1-contact''] \<and>
   requestsOf (fst (appendEvents sampleUtils sampleCache
        [\<lparr>localUid = [], remoteUid = ''+1-555-0100'', contacts = []\<rparr>,
         \<lparr>localUid = ''acct1'', remoteUid = ''acct1-contact'', contacts = []\<rparr>] initial))
     = [ResolveOnlineAccount ''acct1'' ''acct1-contact'']"
proof -
  have h: "''ring/tel/ril_0'' \<noteq> [] \<and> localUidComparesPhoneNumbers sampleUtils ''ring/tel/ril_0'' \<and>
     \<not> localUidComparesPhoneNumbers sampleUtils ''acct1'' \<and>
     toCaseFolded sampleUtils ''acct1'' \<noteq> [] \<and> toCaseFolded sampleUtils ''acct1-contact'' \<noteq> []"
    by code_simp
  have v: "toCaseFolded sampleUtils
             (if minimizePhoneNumber sampleUtils ''+1-555-0100'' = [] then ''+1-555-0100''
              else minimizePhoneNumber sampleUtils ''+1-555-0100'') = ''+15550100''"
    "toCaseFolded sampleUtils ''acct1'' = ''acct1''"
    "toCaseFolded sampleUtils ''acct1-contact'' = ''acct1-contact''"
    "fst (foldedEventAddress sampleUtils ''acct1'' ''acct1-contact'') = ''acct1''"
    "snd (foldedEventAddress sampleUtils ''acct1'' ''acct1-contact'') = ''acct1-contact''"
    by code_simp+
  from resolveEvent_variant_selection
         [of sampleUtils sampleCache "[]" "[]" phoneEvent initial "''ring/tel/ril_0''"] h
  show ?thesis
    unfolding v by simp
qed

text \<open>
  The claim as stated expects two requests, one of them a phone-number request for the
  event with the empty local address. That event is skipped: the append sends the one
  account request, even though the sample collaborator takes the empty local address as
  comparing phone numbers.
\<close>

theorem empty_local_phone_request_counterexample:
  "localUidComparesPhoneNumbers sampleUtils (localUid noLocalEvent) \<and>
   fst (appendEvents sampleUtils sampleCache [noLocalEvent, accountEvent] initial)
     = [ResolveOnlineAccount ''acct1'' ''acct1-contact''] \<and>
   length (requestsOf (fst (appendEvents sampleUtils sampleCache
                              [noLocalEvent, accountEvent] initial))) \<noteq> 2"
  by code_simp

text \<open>
  Claim C4, amended. Over every sequence of calls (appends, prepends and callbacks in any
  order), from any state, no request is sent twice, and sending the request for a key is
  a one-to-one correspondence between the distinct request keys of the events that are
  not skipped, less the keys requested before the sequence, and the requests sent. On a
  new resolver no key was requested before, and the correspondence is with all the
  distinct request keys of the events that are not skipped; in a session after the first,
  a key requested in an earlier session gets no request.
\<close>

theorem requests_correspond_to_keys:
  "distinct (requestsOf (fst (run u calls s))) \<and>
   bij_betw requestFor
     (set (requestKeys u (submittedEvents calls)) - fset (requestedAddresses s))
     (set (requestsOf (fst (run u calls s)))) \<and>
   bij_betw requestFor
     (set (requestKeys u (submittedEvents calls)))
     (set (requestsOf (fst (run u calls initial))))"
  using run_requests_bij [of u calls s] run_requests_bij [of u calls initial]
  by (simp add: initial_def)

theorem requests_correspond_to_keys_witness:
  "requestKeys sampleUtils (submittedEvents
      [(sampleCache, AppendEvents [phoneEvent, accountEvent, phoneEvent]),
       (sampleCache, PrependEvents [accountEvent, noRemoteEvent, strangerEvent])])
     = [([], ''+15550100''), (''acct1'', ''acct1-contact''), ([], ''+15550100''),
        (''acct1'', ''acct1-contact''), (''acct1'', ''nobody'')] \<and>
   requestsOf (fst (run sampleUtils
      [(sampleCache, AppendEvents [phoneEvent, accountEvent, phoneEvent]),
       (sampleCache, PrependEvents [accountEvent, noRemoteEvent, strangerEvent])] initial))
     = [ResolvePhoneNumber ''+15550100'', ResolveOnlineAccount ''acct1'' ''acct1-contact'',
        ResolveOnlineAccount ''acct1'' ''nobody''] \<and>
   bij_betw requestFor
     (set (requestKeys sampleUtils (submittedEvents
        [(sampleCache, AppendEvents [phoneEvent, accountEvent, phoneEvent]),
         (sampleCache, PrependEvents [accountEvent, noRemoteEvent, strangerEvent])])))
     (set (requestsOf (fst (run sampleUtils
        [(sampleCache, AppendEvents [phoneEvent, accountEvent, phoneEvent]),
         (sampleCache, PrependEvents [accountEvent, noRemoteEvent, strangerEvent])] initial))))"
proof -
  have k: "requestKeys sampleUtils (submittedEvents
      [(sampleCache, AppendEvents [phoneEvent, accountEvent, phoneEvent]),
       (sampleCache, PrependEvents [accountEvent, noRemoteEvent, strangerEvent])])
     = [([], ''+15550100''), (''acct1'', ''acct1-contact''), ([], ''+15550100''),
        (''acct1'', ''acct1-contact''), (''acct1'', ''nobody'')]"
    by code_simp
  have r: "requestsOf (fst (run sampleUtils
      [(sampleCache, AppendEvents [phoneEvent, accountEvent, phoneEvent]),
       (sampleCache, PrependEvents [accountEvent, noRemoteEvent, strangerEvent])] initial))
     = [ResolvePhoneNumber ''+15550100'', ResolveOnlineAccount ''acct1'' ''acct1-contact'',
        ResolveOnlineAccount ''acct1'' ''nobody'']"
    by code_simp
  from requests_correspond_to_keys [of sampleUtils
      "[(sampleCache, AppendEvents [phoneEvent, accountEvent, phoneEvent]),
        (sampleCache, PrependEvents [accountEvent, noRemoteEvent, strangerEvent])]" initial] k r
  show ?thesis by blast
qed

text \<open>
  The claim as stated has the requests of one session correspond to the distinct request
  keys of that session. After a first session with one account event is complete, a
  second session appends the same event and another one: two distinct request keys, and
  one request, for the key that is new.
\<close>

theorem later_session_requests_counterexample:
  "events (snd (run sampleUtils
      [(sampleCache, AppendEvents [accountEvent]), (sampleCache, AddressResolved)] initial)) = [] \<and>
   requestKeys sampleUtils [accountEvent, strangerEvent]
     = [(''acct1'', ''acct1-contact''), (''acct1'', ''nobody'')] \<and>
   requestsOf (fst (appendEvents sampleUtils sampleCache [accountEvent, strangerEvent]
      (snd (run sampleUtils
        [(sampleCache, AppendEvents [accountEvent]), (sampleCache, AddressResolved)] initial))))
     = [ResolveOnlineAccount ''acct1'' ''nobody''] \<and>
   isResolving (snd (appendEvents sampleUtils sampleCache [accountEvent, strangerEvent]
      (snd (run sampleUtils
        [(sampleCache, AppendEvents [accountEvent]), (sampleCache, AddressResolved)] initial))))"
  by code_simp

lemma nonskipped_no_email:
  assumes "\<forall>x. x \<noteq> [] \<longrightarrow> toCaseFolded u x \<noteq> []" and "\<not> skipped e"
  shows "\<not> isEmailRequest (requestFor (foldedEventAddressOf u e))"
  using assms
  by (simp add: skipped_def requestFor_def foldedEventAddressOf_def foldedEventAddress_def
      foldedAddress_def Let_def)

text \<open>
  Claim C10. When case folding turns no non-empty string into the empty string, no
  sequence of calls, from any state, makes the resolver send an email-address request,
  and neither does \<^verbatim>\<open>resolveEvent\<close> for any single event.
\<close>

theorem resolveEmailAddress_unreachable:
  assumes "\<forall>x. x \<noteq> [] \<longrightarrow> toCaseFolded u x \<noteq> []"
  shows "filter isEmailRequest (fst (run u calls s)) = [] \<and>
         filter isEmailRequest (fst (resolveEvent u e s)) = []"
proof -
  have "\<not> isEmailRequest x" if x: "x \<in> set (fst (run u calls s))" for x
  proof
    assume em: "isEmailRequest x"
    then have "x \<in> set (requestsOf (fst (run u calls s)))"
      using x by (simp add: requestsOf_def isEmailRequest_isRequest)
    then obtain k where k: "k \<in> set (freshKeys u (submittedEvents calls) (requestedAddresses s))"
      and xk: "x = requestFor k"
      by (auto simp: run_requests_requested)
    from freshKeys_origin [OF k] obtain e' where "\<not> skipped e'" "k = foldedEventAddressOf u e'"
      by blast
    with nonskipped_no_email [OF assms, of e'] em xk show False by simp
  qed
  then have a: "filter isEmailRequest (fst (run u calls s)) = []"
    by (simp add: filter_empty_conv)
  have b: "filter isEmailRequest (fst (resolveEvent u e s)) = []"
    using nonskipped_no_email [OF assms, of e] by (simp add: resolveEvent_eq)
  from a b show ?thesis ..
qed

theorem resolveEmailAddress_unreachable_witness:
  "filter isEmailRequest (fst (run sampleUtils
      [(sampleCache, AppendEvents [phoneEvent, noRemoteEvent, accountEvent]),
       (sampleCache, AddressResolved),
       (sampleCache, PrependEvents [strangerEvent])] initial)) = [] \<and>
   requestsOf (fst (run sampleUtils
      [(sampleCache, AppendEvents [phoneEvent, noRemoteEvent, accountEvent]),
       (sampleCache, AddressResolved),
       (sampleCache, PrependEvents [strangerEvent])] initial)) =
     [ResolvePhoneNumber ''+15550100'', ResolveOnlineAccount ''acct1'' ''acct1-contact'',
      ResolveOnlineAccount ''acct1'' ''nobody'']"
proof -
  have h: "\<forall>x. x \<noteq> [] \<longrightarrow> toCaseFolded sampleUtils x \<noteq> []"
    by (simp add: sampleUtils_def)
  have r: "requestsOf (fst (run sampleUtils
      [(sampleCache, AppendEvents [phoneEvent, noRemoteEvent, accountEvent]),
       (sampleCache, AddressResolved),
       (sampleCache, PrependEvents [strangerEvent])] initial)) =
     [ResolvePhoneNumber ''+15550100'', ResolveOnlineAccount ''acct1'' ''acct1-contact'',
      ResolveOnlineAccount ''acct1'' ''nobody'']"
    by code_simp
  from resolveEmailAddress_unreachable [OF h] r show ?thesis by blast
qed

section \<open>The set of requested addresses and the counter\<close>

text \<open>
  Claim C5, amended. Over any sequence of calls from any state the set of requested
  addresses only grows, and the counter is the counter before plus the number of
  callbacks in the sequence, in 32-bit arithmetic. Neither is cleared or reset, not by
  the completion check that ends a session and not by the append or prepend that starts
  the next one. So a batch whose events are skipped or fold to keys requested before, in
  this session or an earlier one, sends no request and leaves the set as it was: keys
  requested in an earlier session are not requested again.
\<close>

theorem requestedAddresses_never_cleared:
  "requestedAddresses s |\<subseteq>| requestedAddresses (snd (run u calls s)) \<and>
   resolvedAddresses (snd (run u calls s)) = resolvedAddresses s + of_nat (callbacksIn calls) \<and>
   requestedAddresses (snd (checkIfResolved u c s)) = requestedAddresses s \<and>
   resolvedAddresses (snd (checkIfResolved u c s)) = resolvedAddresses s \<and>
   ((\<forall>e \<in> set es. localUid e = [] \<or> remoteUid e = []
        \<or> foldedEventAddressOf u e |\<in>| requestedAddresses s) \<longrightarrow>
      requestsOf (fst (appendEvents u c es s)) = [] \<and>
      requestsOf (fst (prependEvents u c es s)) = [] \<and>
      requestedAddresses (snd (appendEvents u c es s)) = requestedAddresses s \<and>
      requestedAddresses (snd (prependEvents u c es s)) = requestedAddresses s)"
proof -
  have m: "requestedAddresses s |\<subseteq>| requestedAddresses (snd (run u calls s))"
    by (simp add: run_requests_requested)
  have n: "freshKeys u es (requestedAddresses s) = []"
    if "\<forall>e \<in> set es. localUid e = [] \<or> remoteUid e = []
        \<or> foldedEventAddressOf u e |\<in>| requestedAddresses s"
    using that by (intro freshKeys_none) (auto simp: skipped_def)
  show ?thesis
    using m run_resolved [of u calls s]
    by (auto simp: n appendEvents_eq prependEvents_eq appendLoop_eq prependLoop_eq)
qed

theorem requestedAddresses_never_cleared_witness:
  "foldedEventAddressOf sampleUtils accountEvent
     |\<in>| requestedAddresses
           (snd (run sampleUtils
              [(sampleCache, AppendEvents [accountEvent]), (sampleCache, AddressResolved)]
              initial)) \<and>
   requestsOf (fst (appendEvents sampleUtils sampleCache [accountEvent]
                (snd (run sampleUtils
                   [(sampleCache, AppendEvents [accountEvent]), (sampleCache, AddressResolved)]
                   initial)))) = []"
proof -
  let ?s = "snd (run sampleUtils
                   [(sampleCache, AppendEvents [accountEvent]), (sampleCache, AddressResolved)]
                   initial)"
  have k: "foldedEventAddressOf sampleUtils accountEvent |\<in>| requestedAddresses ?s"
    by code_simp
  then have h: "\<forall>e \<in> set [accountEvent]. localUid e = [] \<or> remoteUid e = []
        \<or> foldedEventAddressOf sampleUtils e |\<in>| requestedAddresses ?s"
    by simp
  from requestedAddresses_never_cleared [of ?s sampleUtils "[]" sampleCache "[accountEvent]"] h k
  show ?thesis by blast
qed

text \<open>
  The claim as stated has the next session start from an empty set and a reset counter
  and request the old keys again. After one account event has been appended and its
  request answered, the resolver is idle, the set still holds the key and the counter is
  one. Appending the same event again sends no request, and set and counter stay as they
  were.
\<close>

theorem requestedAddresses_cleared_counterexample:
  "events (snd (run sampleUtils
      [(sampleCache, AppendEvents [accountEvent]), (sampleCache, AddressResolved)] initial)) = [] \<and>
   requestedAddresses (snd (run sampleUtils
      [(sampleCache, AppendEvents [accountEvent]), (sampleCache, AddressResolved)] initial))
     = {|(''acct1'', ''acct1-contact'')|} \<and>
   resolvedAddresses (snd (run sampleUtils
      [(sampleCache, AppendEvents [accountEvent]), (sampleCache, AddressResolved)] initial)) = 1 \<and>
   requestsOf (fst (appendEvents sampleUtils sampleCache [accountEvent]
      (snd (run sampleUtils
        [(sampleCache, AppendEvents [accountEvent]), (sampleCache, AddressResolved)] initial))))
     = [] \<and>
   requestedAddresses (snd (run sampleUtils
      [(sampleCache, AppendEvents [accountEvent]), (sampleCache, AddressResolved),
       (sampleCache, AppendEvents [accountEvent])] initial))
     = {|(''acct1'', ''acct1-contact'')|} \<and>
   resolvedAddresses (snd (run sampleUtils
      [(sampleCache, AppendEvents [accountEvent]), (sampleCache, AddressResolved),
       (sampleCache, AppendEvents [accountEvent])] initial)) = 1"
  by code_simp

subsection \<open>The counter against the set\<close>

lemma runAnswered_Cons:
  "runAnswered u ((c, k) # rest) p s =
     (if k = AddressResolved
      then (if p = 0 then None else runAnswered u rest (p - 1) (snd (perform u c k s)))
      else runAnswered u rest (p + length (requestsOf (fst (perform u c k s))))
             (snd (perform u c k s)))"
  by (cases k) (simp_all add: split_beta)

lemma runAnswered_ledger:
  "runAnswered u calls p s = Some (p', s') \<Longrightarrow>
     s' = snd (run u calls s) \<and>
     callbacksIn calls + p' = p + length (requestsOf (fst (run u calls s)))"
proof (induction calls arbitrary: p s)
  case Nil
  then show ?case by (simp add: callbacksIn_def)
next
  case (Cons ck calls)
  obtain c k where ck: "ck = (c, k)" by (cases ck)
  let ?s1 = "snd (perform u c k s)"
  let ?n = "length (requestsOf (fst (perform u c k s)))"
  have step: "snd (run u (ck # calls) s) = snd (run u calls ?s1)"
    "length (requestsOf (fst (run u (ck # calls) s)))
       = ?n + length (requestsOf (fst (run u calls ?s1)))"
    by (simp_all add: ck split_beta)
  show ?case
  proof (cases "k = AddressResolved")
    case True
    have n0: "?n = 0"
      by (simp add: True addressResolved_def)
    have cb: "callbacksIn (ck # calls) = Suc (callbacksIn calls)"
      by (simp add: ck True callbacksIn_def)
    from Cons.prems have p: "p \<noteq> 0"
      by (simp add: ck runAnswered_Cons True del: runAnswered.simps split: if_splits)
    with Cons.prems have r: "runAnswered u calls (p - 1) ?s1 = Some (p', s')"
      by (simp add: ck runAnswered_Cons True del: runAnswered.simps perform.simps)
    from Cons.IH [OF r] p show ?thesis
      unfolding step cb n0 by auto
  next
    case False
    have cb: "callbacksIn (ck # calls) = callbacksIn calls"
      by (simp add: ck False callbacksIn_def)
    from Cons.prems have r: "runAnswered u calls (p + ?n) ?s1 = Some (p', s')"
      by (simp add: ck runAnswered_Cons False del: runAnswered.simps perform.simps)
    from Cons.IH [OF r] show ?thesis
      unfolding step cb by auto
  qed
qed

text \<open>
  Claim C6, amended. Take any sequence of appends, prepends and callbacks on a new
  resolver in which every callback answers a request that was sent before and not
  answered yet. In the state it reaches, the counter is at most the size of the set of
  requested addresses; and when that size is below \<open>2147483648\<close>, as the size of a
  \<^verbatim>\<open>QSet\<close> is, the counter plus the number of unanswered requests is that size.
\<close>

theorem resolved_le_requested_answered:
  "runAnswered u calls 0 initial = Some (p, s) \<Longrightarrow>
     s = snd (run u calls initial) \<and>
     sint (resolvedAddresses s) \<le> int (fcard (requestedAddresses s)) \<and>
     (fcard (requestedAddresses s) < 2147483648 \<longrightarrow>
        sint (resolvedAddresses s) + int p = int (fcard (requestedAddresses s)))"
proof -
  assume r: "runAnswered u calls 0 initial = Some (p, s)"
  from runAnswered_ledger [OF r]
  have s: "s = snd (run u calls initial)"
    and l: "callbacksIn calls + p = length (requestsOf (fst (run u calls initial)))"
    by simp_all
  have c: "resolvedAddresses s = of_nat (callbacksIn calls)"
    and f: "fcard (requestedAddresses s) = callbacksIn calls + p"
    using history_counts [of u calls] l by (simp_all add: s)
  have le: "sint (resolvedAddresses s) \<le> int (fcard (requestedAddresses s))"
    using sint_of_nat_le [of "callbacksIn calls"] by (simp add: c f)
  have eq: "sint (resolvedAddresses s) + int p = int (fcard (requestedAddresses s))"
    if "fcard (requestedAddresses s) < 2147483648"
  proof -
    from that have "callbacksIn calls < 2147483648" by (simp add: f)
    from sint_of_nat_small [OF this] show ?thesis by (simp add: c f)
  qed
  from s le eq show ?thesis by blast
qed

theorem resolved_le_requested_answered_witness:
  "runAnswered sampleUtils
      [(sampleCache, AppendEvents [phoneEvent, accountEvent]), (sampleCache, AddressResolved),
       (sampleCache, PrependEvents [strangerEvent]), (sampleCache, AddressResolved)] 0 initial
     = Some (1, snd (run sampleUtils
      [(sampleCache, AppendEvents [phoneEvent, accountEvent]), (sampleCache, AddressResolved),
       (sampleCache, PrependEvents [strangerEvent]), (sampleCache, AddressResolved)] initial)) \<and>
   fcard (requestedAddresses (snd (run sampleUtils
      [(sampleCache, AppendEvents [phoneEvent, accountEvent]), (sampleCache, AddressResolved),
       (sampleCache, PrependEvents [strangerEvent]), (sampleCache, AddressResolved)] initial)))
     < 2147483648 \<and>
   sint (resolvedAddresses (snd (run sampleUtils
      [(sampleCache, AppendEvents [phoneEvent, accountEvent]), (sampleCache, AddressResolved),
       (sampleCache, PrependEvents [strangerEvent]), (sampleCache, AddressResolved)] initial)))
     \<le> int (fcard (requestedAddresses (snd (run sampleUtils
      [(sampleCache, AppendEvents [phoneEvent, accountEvent]), (sampleCache, AddressResolved),
       (sampleCache, PrependEvents [strangerEvent]), (sampleCache, AddressResolved)] initial)))) \<and>
   sint (resolvedAddresses (snd (run sampleUtils
      [(sampleCache, AppendEvents [phoneEvent, accountEvent]), (sampleCache, AddressResolved),
       (sampleCache, PrependEvents [strangerEvent]), (sampleCache, AddressResolved)] initial)))
     + int 1
     = int (fcard (requestedAddresses (snd (run sampleUtils
      [(sampleCache, AppendEvents [phoneEvent, accountEvent]), (sampleCache, AddressResolved),
       (sampleCache, PrependEvents [strangerEvent]), (sampleCache, AddressResolved)] initial))))"
proof -
  have h: "runAnswered sampleUtils
      [(sampleCache, AppendEvents [phoneEvent, accountEvent]), (sampleCache, AddressResolved),
       (sampleCache, PrependEvents [strangerEvent]), (sampleCache, AddressResolved)] 0 initial
     = Some (1, snd (run sampleUtils
      [(sampleCache, AppendEvents [phoneEvent, accountEvent]), (sampleCache, AddressResolved),
       (sampleCache, PrependEvents [strangerEvent]), (sampleCache, AddressResolved)] initial))"
    by code_simp
  have "fcard (requestedAddresses (snd (run sampleUtils
      [(sampleCache, AppendEvents [phoneEvent, accountEvent]), (sampleCache, AddressResolved),
       (sampleCache, PrependEvents [strangerEvent]), (sampleCache, AddressResolved)] initial)))
     = 3"
    by code_simp
  then have b: "fcard (requestedAddresses (snd (run sampleUtils
      [(sampleCache, AppendEvents [phoneEvent, accountEvent]), (sampleCache, AddressResolved),
       (sampleCache, PrependEvents [strangerEvent]), (sampleCache, AddressResolved)] initial)))
     < 2147483648"
    by simp
  from resolved_le_requested_answered [OF h] h b show ?thesis by blast
qed

text \<open>
  The claim as stated covers every interleaving of calls and callbacks. A callback that
  reaches a new resolver before any request was sent sets the counter to one while the set
  is empty.
\<close>

theorem unsolicited_callback_counterexample:
  "resolvedAddresses (snd (run sampleUtils [(sampleCache, AddressResolved)] initial)) = 1 \<and>
   sint (resolvedAddresses (snd (run sampleUtils [(sampleCache, AddressResolved)] initial))) = 1 \<and>
   fcard (requestedAddresses (snd (run sampleUtils [(sampleCache, AddressResolved)] initial))) = 0 \<and>
   \<not> sint (resolvedAddresses (snd (run sampleUtils [(sampleCache, AddressResolved)] initial)))
       \<le> int (fcard (requestedAddresses
                        (snd (run sampleUtils [(sampleCache, AddressResolved)] initial))))"
  by code_simp

end
